theory Spec2Isabelle
  imports Main "HOL-Library.Sublist"
begin

section \<open>Strings, runes and hash syntax (util.go)\<close>

text \<open>
  A Go string is a sequence of bytes; \<open>len\<close> counts bytes and slicing cuts at byte
  offsets.  HOL's \<open>string\<close> is a list of 8-bit characters, so it is used as it is.
  Only \<open>for _, r := range s\<close> looks at the string as text: it decodes UTF-8, one code
  point per iteration, and yields U+FFFD while advancing one byte where the bytes are
  not a well-formed encoding.  The decoder below follows the language definition of
  that loop (first-byte classes, the accepted range of the second byte, continuation
  bytes).  Bytes and code points are natural numbers.
\<close>

definition RuneError :: nat where
  "RuneError = 0xFFFD"

definition contByte :: "nat \<Rightarrow> bool" where
  "contByte b \<longleftrightarrow> 0x80 \<le> b \<and> b \<le> 0xBF"

text \<open>Accepted range of the second byte, by first byte (excludes overlong forms,
  surrogates and code points above U+10FFFF).\<close>

definition acceptLo :: "nat \<Rightarrow> nat" where
  "acceptLo b0 = (if b0 = 0xE0 then 0xA0 else if b0 = 0xF0 then 0x90 else 0x80)"

definition acceptHi :: "nat \<Rightarrow> nat" where
  "acceptHi b0 = (if b0 = 0xED then 0x9F else if b0 = 0xF4 then 0x8F else 0xBF)"

text \<open>\<open>decodeRune bs\<close> is the code point at the head of \<open>bs\<close> and the number of bytes
  it takes.  Masking with \<open>0x1F\<close>, \<open>0x0F\<close>, \<open>0x07\<close>, \<open>0x3F\<close> is \<open>mod\<close>; shifting left by
  6 is multiplication by 64; the shifted parts do not overlap, so \<open>|\<close> is \<open>+\<close>.\<close>

fun decodeRune :: "nat list \<Rightarrow> nat \<times> nat" where
  "decodeRune [] = (RuneError, 0)"
| "decodeRune (b0 # bs) =
     (if b0 < 0x80 then (b0, 1)
      else if 0xC2 \<le> b0 \<and> b0 \<le> 0xDF then
        (case bs of
           b1 # _ \<Rightarrow>
             if contByte b1 then (b0 mod 32 * 64 + b1 mod 64, 2) else (RuneError, 1)
         | _ \<Rightarrow> (RuneError, 1))
      else if 0xE0 \<le> b0 \<and> b0 \<le> 0xEF then
        (case bs of
           b1 # b2 # _ \<Rightarrow>
             if acceptLo b0 \<le> b1 \<and> b1 \<le> acceptHi b0 \<and> contByte b2
             then (b0 mod 16 * 4096 + b1 mod 64 * 64 + b2 mod 64, 3)
             else (RuneError, 1)
         | _ \<Rightarrow> (RuneError, 1))
      else if 0xF0 \<le> b0 \<and> b0 \<le> 0xF4 then
        (case bs of
           b1 # b2 # b3 # _ \<Rightarrow>
             if acceptLo b0 \<le> b1 \<and> b1 \<le> acceptHi b0 \<and> contByte b2 \<and> contByte b3
             then (b0 mod 8 * 262144 + b1 mod 64 * 4096 + b2 mod 64 * 64 + b3 mod 64, 4)
             else (RuneError, 1)
         | _ \<Rightarrow> (RuneError, 1))
      else (RuneError, 1))"

text \<open>The code points a \<open>range\<close> loop over the string yields, in order.\<close>

function runes :: "nat list \<Rightarrow> nat list" where
  "runes [] = []"
| "runes (b # bs) = fst (decodeRune (b # bs)) # runes (drop (snd (decodeRune (b # bs)) - 1) bs)"
  by pat_completeness auto
termination
  by (relation "measure length") auto

text \<open>\<open>unicode.Is(table, r)\<close>: membership of a code point in a table of ranges;
  \<open>unicode.ASCII_Hex_Digit\<close> is the table \<open>0-9\<close>, \<open>A-F\<close>, \<open>a-f\<close>.\<close>

definition unicode_Is :: "(nat \<times> nat) list \<Rightarrow> nat \<Rightarrow> bool" where
  "unicode_Is table r = list_ex (\<lambda>(lo, hi). lo \<le> r \<and> r \<le> hi) table"

definition ASCII_Hex_Digit :: "(nat \<times> nat) list" where
  "ASCII_Hex_Digit = [(0x30, 0x39), (0x41, 0x46), (0x61, 0x66)]"

text \<open>The loop of \<open>isHash\<close>: false at the first code point that is not a hex digit.\<close>

fun allHexRunes :: "nat list \<Rightarrow> bool" where
  "allHexRunes [] = True"
| "allHexRunes (r # rs) =
     (if \<not> unicode_Is ASCII_Hex_Digit r then False else allHexRunes rs)"

definition isHash :: "string \<Rightarrow> bool" where
  "isHash hash =
     (if length hash \<noteq> 40 then False
      else allHexRunes (runes (map of_char hash)))"

text \<open>The hex digits as the specification writes them, \<open>[0-9a-fA-F]\<close>.\<close>

definition hexDigitChars :: "char set" where
  "hexDigitChars = set ''0123456789abcdefABCDEF''"

subsection \<open>Errors\<close>

text \<open>
  A Go \<open>error\<close> is a value with a message.  \<open>Error msg\<close> is such a value, whoever made it
  (\<open>fmt.Errorf\<close>, package \<open>os\<close>, \<open>os/exec\<close>, a blob store).  \<open>Panic msg\<close> is a run-time panic
  (a slice or index out of range): not a returned value in Go, but it ends the
  computation in the same way, so the model hands it back on the same channel.
  \<open>NotFoundError hash\<close> is what the manifest answers for a hash without a path.
\<close>

datatype error =
    Error string
  | NotFoundError string
  | Panic string


subsection \<open>shortHash, set, validHashes\<close>

text \<open>\<open>hash[:7]\<close> panics when the string has fewer than 7 bytes.\<close>

definition shortHash :: "string \<Rightarrow> error + string" where
  "shortHash hash =
     (if length hash < 7 then Inl (Panic ''slice bounds out of range'')
      else Inr (take 7 hash))"

text \<open>\<open>set\<close>: the loop with its two variables, the slice \<open>dedup\<close> and the map \<open>elems\<close>.\<close>

fun set_loop :: "string list \<Rightarrow> string list \<Rightarrow> (string \<rightharpoonup> bool) \<Rightarrow> string list" where
  "set_loop [] dedup elems = dedup"
| "set_loop (elem # slice) dedup elems =
     (if elems elem = None
      then set_loop slice (dedup @ [elem]) (elems(elem \<mapsto> True))
      else set_loop slice dedup elems)"

definition set_go :: "string list \<Rightarrow> string list" where
  "set_go slice = set_loop slice [] Map.empty"

text \<open>\<open>validHashes\<close>: the named results \<open>valid\<close> and \<open>err\<close> are the loop variables; an
  invalid hash overwrites \<open>err\<close> and the loop goes on.\<close>

fun validHashes_loop ::
  "string list \<Rightarrow> string list \<Rightarrow> error option \<Rightarrow> string list \<times> error option" where
  "validHashes_loop [] valid err = (valid, err)"
| "validHashes_loop (hash # hashes) valid err =
     (if isHash hash then validHashes_loop hashes (valid @ [hash]) err
      else validHashes_loop hashes valid (Some (Error (''invalid <hash>: '' @ hash))))"

definition validHashes :: "string list \<Rightarrow> string list \<times> error option" where
  "validHashes hashes = validHashes_loop (set_go hashes) [] None"

text \<open>The specification's \<open>deduplicate\<close>: later duplicates removed, first-seen order kept.\<close>

fun deduplicate :: "'a list \<Rightarrow> 'a list" where
  "deduplicate [] = []"
| "deduplicate (x # xs) = x # filter (\<lambda>y. y \<noteq> x) (deduplicate xs)"

subsection \<open>readerHash\<close>

text \<open>
  An \<open>io.Reader\<close> hands out its data in pieces of its own choosing and ends with
  \<open>io.EOF\<close> or with another error.
\<close>

datatype reader = EOF | ReadErr error | Chunk string reader

text \<open>
  \<open>bufio.Reader.WriteTo\<close> fills its buffer from the reader and writes the buffer to the
  writer, again and again, until a fill brings no data.  One fill (\<open>Reader.fill\<close>)
  calls \<open>Read\<close> up to \<open>maxConsecutiveEmptyReads\<close> times: a read with data ends the
  fill, an error ends it and is kept, and when every one of the reads has returned no
  data and no error the fill ends with \<open>io.ErrNoProgress\<close>.  The end of input is not an
  error for \<open>WriteTo\<close>.  The writer is the SHA-1 state, a \<open>hash.Hash\<close>: what has been
  written to it determines its sum, so the state is the bytes written so far.
\<close>

definition maxConsecutiveEmptyReads :: nat where
  "maxConsecutiveEmptyReads = 100"

definition ErrNoProgress :: error where
  "ErrNoProgress = Error ''multiple Read calls return no data or error''"

text \<open>The first argument is the number of reads the current fill has left.\<close>

fun writeTo :: "nat \<Rightarrow> reader \<Rightarrow> string \<Rightarrow> error option \<times> string" where
  "writeTo 0 r h = (Some ErrNoProgress, h)"
| "writeTo (Suc i) EOF h = (None, h)"
| "writeTo (Suc i) (ReadErr err) h = (Some err, h)"
| "writeTo (Suc i) (Chunk bs r) h =
     (if bs = [] then writeTo i r h
      else writeTo maxConsecutiveEmptyReads r (h @ bs))"

text \<open>\<open>fmt.Sprintf("%x", bytes)\<close>: two lowercase hex digits for each byte.\<close>

definition hexDigit :: "nat \<Rightarrow> char" where
  "hexDigit n = ''0123456789abcdef'' ! (n mod 16)"

definition hexByte :: "char \<Rightarrow> string" where
  "hexByte c = [hexDigit (of_char c div 16), hexDigit (of_char c mod 16)]"

definition sprintf_x :: "string \<Rightarrow> string" where
  "sprintf_x bs = concat (map hexByte bs)"

text \<open>The digest function of \<open>crypto/sha1\<close> (bytes to 20 bytes) is a parameter.\<close>

definition readerHash :: "(string \<Rightarrow> string) \<Rightarrow> reader \<Rightarrow> string \<times> error option" where
  "readerHash sha1_Sum r =
     (case writeTo maxConsecutiveEmptyReads r [] of
        (Some err, h) \<Rightarrow> ('''', Some err)
      | (None, h) \<Rightarrow> (sprintf_x (sha1_Sum h), None))"

text \<open>The pieces of a stream, its bytes, and whether it ends with \<open>io.EOF\<close>.\<close>

fun chunks :: "reader \<Rightarrow> string list" where
  "chunks EOF = []"
| "chunks (ReadErr err) = []"
| "chunks (Chunk bs r) = bs # chunks r"

definition contents :: "reader \<Rightarrow> string" where
  "contents r = concat (chunks r)"

fun endsWithEOF :: "reader \<Rightarrow> bool" where
  "endsWithEOF EOF = True"
| "endsWithEOF (ReadErr err) = False"
| "endsWithEOF (Chunk bs r) = endsWithEOF r"



text \<open>A stand-in for the digest function in the examples, with sums of 20 bytes as
  SHA-1 has them: the first 20 bytes of the input, filled up with zero bytes.\<close>

definition firstBytesSum :: "string \<Rightarrow> string" where
  "firstBytesSum bs = take 20 (bs @ replicate 20 (CHR 0x00))"

text \<open>A stream that holds \<open>abc\<close> after \<open>maxConsecutiveEmptyReads\<close> empty reads.\<close>

definition stalledABC :: reader where
  "stalledABC = (Chunk [] ^^ maxConsecutiveEmptyReads) (Chunk ''abc'' EOF)"

section \<open>The batch runner (data_blob.go)\<close>

subsection \<open>Manifest\<close>

text \<open>
  A manifest is the list of tracked files, each with the hash of its content.
  Package \<open>data\<close> builds it in \<open>NewManifest\<close>, which this development takes as a
  parameter (an operation on the outside world).
\<close>

type_synonym manifest = "(string \<times> string) list"

text \<open>Modelled from the spec: \<open>Manifest.PathsForHash\<close> is not among the sources.  It
  returns all paths whose hash equals the argument, in the manifest's order, and
  fails with \<open>NotFoundError\<close> if no tracked path matches.\<close>

definition PathsForHash :: "manifest \<Rightarrow> string \<Rightarrow> error + string list" where
  "PathsForHash mf hash =
     (let l = map fst (filter (\<lambda>(path, h). h = hash) mf)
      in if l = [] then Inl (NotFoundError hash) else Inr l)"

text \<open>Modelled from the spec: \<open>Manifest.AllHashes\<close> is not among the sources.  It
  returns the distinct hashes of all tracked files.\<close>

definition AllHashes :: "manifest \<Rightarrow> string list" where
  "AllHashes mf = deduplicate (map snd mf)"

subsection \<open>blobCmdRunFunc\<close>

text \<open>
  Code with effects is a function from the state before to a result and the state
  after.  The runner itself touches the state only through \<open>mainDataIndex\<close>,
  \<open>NewManifest\<close> and the function \<open>f\<close> it is given, so it is written for any type of
  state \<open>'s\<close> and any type of index \<open>'d\<close>.
\<close>

type_synonym ('d, 's) blobCmdFunc =
  "'d \<Rightarrow> string \<Rightarrow> string list \<Rightarrow> 's \<Rightarrow> error option \<times> 's"

definition blobPaths ::
  "(string \<Rightarrow> 's \<Rightarrow> manifest \<times> 's) \<Rightarrow> string \<Rightarrow> 's \<Rightarrow> (error + string list) \<times> 's" where
  "blobPaths NewManifest hash s =
     (case NewManifest '''' s of (mf, s') \<Rightarrow> (PathsForHash mf hash, s'))"

text \<open>The \<open>for\<close> loop of \<open>blobCmdRunFunc\<close>.  Its variable \<open>done\<close> is handed back with the
  result, as it stands when the loop is left.\<close>

fun runLoop ::
  "(string \<Rightarrow> 's \<Rightarrow> manifest \<times> 's) \<Rightarrow> ('d, 's) blobCmdFunc \<Rightarrow> 'd \<Rightarrow>
   string list \<Rightarrow> (string \<rightharpoonup> bool) \<Rightarrow> 's \<Rightarrow> error option \<times> (string \<rightharpoonup> bool) \<times> 's" where
  "runLoop NewManifest f dataIndex [] done s = (None, done, s)"
| "runLoop NewManifest f dataIndex (hash # hashes) done s =
     (if done hash \<noteq> None then runLoop NewManifest f dataIndex hashes done s
      else if \<not> isHash hash then (Some (Error (''invalid <hash>: '' @ hash)), done, s)
      else
        (case blobPaths NewManifest hash s of
           (Inl err, s1) \<Rightarrow> (Some err, done, s1)
         | (Inr paths, s1) \<Rightarrow>
             (case f dataIndex hash paths s1 of
                (Some err, s2) \<Rightarrow> (Some err, done, s2)
              | (None, s2) \<Rightarrow>
                  runLoop NewManifest f dataIndex hashes (done(hash \<mapsto> True)) s2)))"

definition blobCmdRunFunc ::
  "('s \<Rightarrow> (error + 'd) \<times> 's) \<Rightarrow> (string \<Rightarrow> 's \<Rightarrow> manifest \<times> 's) \<Rightarrow>
   string list \<Rightarrow> ('d, 's) blobCmdFunc \<Rightarrow> 's \<Rightarrow> error option \<times> 's" where
  "blobCmdRunFunc mainDataIndex NewManifest hashes f s =
     (if length hashes < 1
      then (Some (Error ''at least one <hash> argument required.''), s)
      else
        (case mainDataIndex s of
           (Inl err, s1) \<Rightarrow> (Some err, s1)
         | (Inr dataIndex, s1) \<Rightarrow>
             (case runLoop NewManifest f dataIndex hashes Map.empty s1 of
                (err, done, s2) \<Rightarrow> (err, s2))))"

text \<open>\<open>blobCmdHashes\<close>: with \<open>--all\<close>, the hashes of the manifest are appended.\<close>

definition blobCmdHashes ::
  "(string \<Rightarrow> 's \<Rightarrow> manifest \<times> 's) \<Rightarrow> bool \<Rightarrow> string list \<Rightarrow> 's \<Rightarrow> string list \<times> 's" where
  "blobCmdHashes NewManifest all args s =
     (if all then (case NewManifest '''' s of (mf, s') \<Rightarrow> (args @ AllHashes mf, s'))
      else (args, s))"

subsection \<open>Observing the calls of the transfer function\<close>

text \<open>
  To count how often the runner calls \<open>f\<close>, and with which hash, \<open>f\<close> is wrapped so that
  every call writes its hash to a log that nothing else touches: the state becomes a
  pair of the log and the state proper, and the other operations are lifted to leave
  the log alone.
\<close>

definition counting :: "('d, 's) blobCmdFunc \<Rightarrow> ('d, string list \<times> 's) blobCmdFunc" where
  "counting f d hash paths =
     (\<lambda>(log, s). case f d hash paths s of (r, s') \<Rightarrow> (r, (log @ [hash], s')))"

definition lifted :: "('s \<Rightarrow> 'a \<times> 's) \<Rightarrow> string list \<times> 's \<Rightarrow> 'a \<times> (string list \<times> 's)" where
  "lifted op = (\<lambda>(log, s). case op s of (r, s') \<Rightarrow> (r, (log, s')))"

definition invoked ::
  "('s \<Rightarrow> (error + 'd) \<times> 's) \<Rightarrow> (string \<Rightarrow> 's \<Rightarrow> manifest \<times> 's) \<Rightarrow>
   string list \<Rightarrow> ('d, 's) blobCmdFunc \<Rightarrow> 's \<Rightarrow> string list" where
  "invoked mainDataIndex NewManifest hashes f s =
     fst (snd (blobCmdRunFunc (lifted mainDataIndex) (\<lambda>p. lifted (NewManifest p))
                 hashes (counting f) ([], s)))"

subsection \<open>The outside world: files, blob store, standard output\<close>

text \<open>
  Every operation on the outside world leaves an event in a trace, in the order of
  the calls.  What the operation answers, and how it changes the world, is up to the
  environment: the operations of a blob store and of the operating system are
  functions on a world \<open>'w\<close> of any type, so that each of them may succeed or fail
  at any call.
\<close>

datatype event =
    Stdout string
  | LoadIndex
  | LoadManifest
  | OsOpen string
  | OsCreate string
  | IoCopy string
  | FileClose string
  | StorePut string
  | StoreGet string
  | StoreClose string
  | ExecCp string string

record 'w world =
  trace :: "event list"
  ext :: 'w

text \<open>The interface \<open>blobStore\<close>.  \<open>Put\<close> takes the bytes its reader delivers; \<open>Get\<close>
  answers with the bytes of the stream it opens.\<close>

record 'w blobStore =
  Put :: "string \<Rightarrow> string \<Rightarrow> 'w \<Rightarrow> error option \<times> 'w"
  Get :: "string \<Rightarrow> 'w \<Rightarrow> (error + string) \<times> 'w"

record 'w DataIndex =
  BlobStore :: "'w blobStore"

text \<open>What the package calls but does not define: opening the index, reading the
  manifest, the file operations of \<open>os\<close> and \<open>io\<close>, closing the stream of a store, and
  the command \<open>cp\<close>.\<close>

record 'w env =
  mainDataIndex :: "'w \<Rightarrow> (error + 'w DataIndex) \<times> 'w"
  NewManifest :: "string \<Rightarrow> 'w \<Rightarrow> manifest \<times> 'w"
  os_Open :: "string \<Rightarrow> 'w \<Rightarrow> (error + string) \<times> 'w"
  os_Create :: "string \<Rightarrow> 'w \<Rightarrow> error option \<times> 'w"
  io_Copy :: "string \<Rightarrow> string \<Rightarrow> 'w \<Rightarrow> error option \<times> 'w"
  file_Close :: "string \<Rightarrow> 'w \<Rightarrow> error option \<times> 'w"
  store_Close :: "string \<Rightarrow> 'w \<Rightarrow> error option \<times> 'w"
  exec_cp :: "string \<Rightarrow> string \<Rightarrow> 'w \<Rightarrow> error option \<times> 'w"

text \<open>A call of an outside operation: the event is written, the operation runs.\<close>

definition call :: "event \<Rightarrow> ('w \<Rightarrow> 'a \<times> 'w) \<Rightarrow> 'w world \<Rightarrow> 'a \<times> 'w world" where
  "call ev op s =
     (case op (ext s) of (r, w') \<Rightarrow> (r, \<lparr>trace = trace s @ [ev], ext = w'\<rparr>))"

text \<open>A deferred \<open>Close\<close>: it runs when the function returns, and its error is dropped.\<close>

definition deferred :: "event \<Rightarrow> ('w \<Rightarrow> error option \<times> 'w) \<Rightarrow> 'w world \<Rightarrow> 'w world" where
  "deferred ev op s = snd (call ev op s)"

definition pOut :: "string \<Rightarrow> 'w world \<Rightarrow> 'w world" where
  "pOut msg s = s\<lparr>trace := trace s @ [Stdout msg]\<rparr>"

definition blobKey :: "string \<Rightarrow> string" where
  "blobKey hash = ''/blob/'' @ hash"

text \<open>The precision of \<open>%.7s\<close> (\<open>fmt.truncateString\<close>): a \<open>range\<close> loop over the string
  counts code points, and when the count has passed \<open>n\<close> the string is cut at the byte
  index \<open>i\<close> that the loop has reached; a string of at most \<open>n\<close> code points is kept
  whole.  \<open>truncateIndex\<close> is that index.\<close>

fun truncateIndex :: "nat \<Rightarrow> nat list \<Rightarrow> nat" where
  "truncateIndex 0 bs = 0"
| "truncateIndex (Suc n) [] = 0"
| "truncateIndex (Suc n) (b # bs) =
     snd (decodeRune (b # bs)) + truncateIndex n (drop (snd (decodeRune (b # bs)) - 1) bs)"

definition truncateString :: "nat \<Rightarrow> string \<Rightarrow> string" where
  "truncateString n s = take (truncateIndex n (map of_char s)) s"

text \<open>The line \<open>"<verb> blob %.7s %s\n"\<close>.\<close>

definition blobLine :: "string \<Rightarrow> string \<Rightarrow> string \<Rightarrow> string" where
  "blobLine verb hash path =
     verb @ '' blob '' @ truncateString 7 hash @ '' '' @ path @ [CHR 0x0A]"

definition putBlob :: "'w env \<Rightarrow> 'w DataIndex \<Rightarrow> string \<Rightarrow> string \<Rightarrow> 'w world \<Rightarrow> error option \<times> 'w world" where
  "putBlob e i hash path s =
     (case call (OsOpen path) (os_Open e path) s of
        (Inl err, s1) \<Rightarrow> (Some err, s1)
      | (Inr bf, s1) \<Rightarrow>
          (case call (StorePut (blobKey hash)) (Put (BlobStore i) (blobKey hash) bf) s1 of
             (Some err, s2) \<Rightarrow> (Some err, deferred (FileClose path) (file_Close e path) s2)
           | (None, s2) \<Rightarrow>
               (case call (FileClose path) (file_Close e path) s2 of
                  (Some err, s3) \<Rightarrow> (Some err, deferred (FileClose path) (file_Close e path) s3)
                | (None, s3) \<Rightarrow> (None, deferred (FileClose path) (file_Close e path) s3))))"

text \<open>In \<open>getBlob\<close> the deferred calls run last opened first: the file, then the
  stream of the store.\<close>

definition getBlob_defers :: "'w env \<Rightarrow> string \<Rightarrow> string \<Rightarrow> 'w world \<Rightarrow> 'w world" where
  "getBlob_defers e hash path s =
     deferred (StoreClose (blobKey hash)) (store_Close e (blobKey hash))
       (deferred (FileClose path) (file_Close e path) s)"

definition getBlob :: "'w env \<Rightarrow> 'w DataIndex \<Rightarrow> string \<Rightarrow> string \<Rightarrow> 'w world \<Rightarrow> error option \<times> 'w world" where
  "getBlob e i hash path s =
     (case call (StoreGet (blobKey hash)) (Get (BlobStore i) (blobKey hash)) s of
        (Inl err, s1) \<Rightarrow> (Some err, s1)
      | (Inr br, s1) \<Rightarrow>
          (case call (OsCreate path) (os_Create e path) s1 of
             (Some err, s2) \<Rightarrow>
               (Some err, deferred (StoreClose (blobKey hash)) (store_Close e (blobKey hash)) s2)
           | (None, s2) \<Rightarrow>
               (case call (IoCopy path) (io_Copy e path br) s2 of
                  (Some err, s3) \<Rightarrow> (Some err, getBlob_defers e hash path s3)
                | (None, s3) \<Rightarrow>
                    (case call (FileClose path) (file_Close e path) s3 of
                       (Some err, s4) \<Rightarrow> (Some err, getBlob_defers e hash path s4)
                     | (None, s4) \<Rightarrow>
                         (case call (StoreClose (blobKey hash)) (store_Close e (blobKey hash)) s4 of
                            (Some err, s5) \<Rightarrow> (Some err, getBlob_defers e hash path s5)
                          | (None, s5) \<Rightarrow> (None, getBlob_defers e hash path s5))))))"

definition copyFile :: "'w env \<Rightarrow> string \<Rightarrow> string \<Rightarrow> 'w world \<Rightarrow> error option \<times> 'w world" where
  "copyFile e src dst s = call (ExecCp src dst) (exec_cp e src dst) s"

text \<open>The function \<open>f\<close> of \<open>blobPutCmd\<close>.  \<open>paths[0]\<close> panics on an empty slice.\<close>

definition blobPut_f :: "'w env \<Rightarrow> ('w DataIndex, 'w world) blobCmdFunc" where
  "blobPut_f e d hash paths s =
     (case paths of
        [] \<Rightarrow> (Some (Panic ''index out of range''), s)
      | p0 # _ \<Rightarrow> putBlob e d hash p0 (pOut (blobLine ''put'' hash p0) s))"

text \<open>The function \<open>f\<close> of \<open>blobGetCmd\<close>: its loop over \<open>paths[1:]\<close>, then the function.\<close>

fun copyToOthers :: "'w env \<Rightarrow> string \<Rightarrow> string \<Rightarrow> string list \<Rightarrow> 'w world \<Rightarrow> error option \<times> 'w world" where
  "copyToOthers e hash p0 [] s = (None, s)"
| "copyToOthers e hash p0 (path # paths) s =
     (case copyFile e p0 path (pOut (blobLine ''get'' hash path) s) of
        (Some err, s1) \<Rightarrow> (Some err, s1)
      | (None, s1) \<Rightarrow> copyToOthers e hash p0 paths s1)"

definition blobGet_f :: "'w env \<Rightarrow> ('w DataIndex, 'w world) blobCmdFunc" where
  "blobGet_f e d hash paths s =
     (case paths of
        [] \<Rightarrow> (Some (Panic ''index out of range''), s)
      | p0 # others \<Rightarrow>
          (case getBlob e d hash p0 (pOut (blobLine ''get'' hash p0) s) of
             (Some err, s1) \<Rightarrow> (Some err, s1)
           | (None, s1) \<Rightarrow> copyToOthers e hash p0 others s1))"

text \<open>The two commands.  \<open>all\<close> is the flag \<open>--all\<close>.\<close>

definition openIndex :: "'w env \<Rightarrow> 'w world \<Rightarrow> (error + 'w DataIndex) \<times> 'w world" where
  "openIndex e = call LoadIndex (mainDataIndex e)"

definition readManifest :: "'w env \<Rightarrow> string \<Rightarrow> 'w world \<Rightarrow> manifest \<times> 'w world" where
  "readManifest e path = call LoadManifest (NewManifest e path)"

definition blobPutCmd :: "'w env \<Rightarrow> bool \<Rightarrow> string list \<Rightarrow> 'w world \<Rightarrow> error option \<times> 'w world" where
  "blobPutCmd e all args s =
     (case blobCmdHashes (readManifest e) all args s of
        (hashes, s1) \<Rightarrow> blobCmdRunFunc (openIndex e) (readManifest e) hashes (blobPut_f e) s1)"

definition blobGetCmd :: "'w env \<Rightarrow> bool \<Rightarrow> string list \<Rightarrow> 'w world \<Rightarrow> error option \<times> 'w world" where
  "blobGetCmd e all args s =
     (case blobCmdHashes (readManifest e) all args s of
        (hashes, s1) \<Rightarrow> blobCmdRunFunc (openIndex e) (readManifest e) hashes (blobGet_f e) s1)"

subsection \<open>Reading a trace\<close>

text \<open>The number of calls of \<open>BlobStore.Put\<close> or \<open>BlobStore.Get\<close> with a given key.\<close>

fun isStoreCall :: "string \<Rightarrow> event \<Rightarrow> bool" where
  "isStoreCall key (StorePut k) = (k = key)"
| "isStoreCall key (StoreGet k) = (k = key)"
| "isStoreCall key _ = False"

definition storeCalls :: "string \<Rightarrow> event list \<Rightarrow> nat" where
  "storeCalls key evs = length (filter (isStoreCall key) evs)"

text \<open>The calls of \<open>BlobStore.Get\<close> (their keys) and the runs of \<open>cp\<close>, in order.\<close>

fun storeGets :: "event list \<Rightarrow> string list" where
  "storeGets [] = []"
| "storeGets (StoreGet k # evs) = k # storeGets evs"
| "storeGets (_ # evs) = storeGets evs"

fun copies :: "event list \<Rightarrow> (string \<times> string) list" where
  "copies [] = []"
| "copies (ExecCp src dst # evs) = (src, dst) # copies evs"
| "copies (_ # evs) = copies evs"


subsection \<open>An environment in memory\<close>

text \<open>
  One environment to run the commands on concrete inputs: files and blobs are
  association lists (the first entry of a name counts), the manifest is a fixed list,
  and writing to a path listed as read-only fails.
\<close>

record mem =
  files :: "(string \<times> string) list"
  blobs :: "(string \<times> string) list"
  tracked :: manifest
  readonly :: "string list"

definition mem_Open :: "string \<Rightarrow> mem \<Rightarrow> (error + string) \<times> mem" where
  "mem_Open path w =
     (case map_of (files w) path of
        None \<Rightarrow> (Inl (Error (''open '' @ path @ '': no such file or directory'')), w)
      | Some c \<Rightarrow> (Inr c, w))"

definition mem_Create :: "string \<Rightarrow> mem \<Rightarrow> error option \<times> mem" where
  "mem_Create path w =
     (if path \<in> set (readonly w)
      then (Some (Error (''open '' @ path @ '': permission denied'')), w)
      else (None, w\<lparr>files := (path, []) # files w\<rparr>))"

definition mem_Copy :: "string \<Rightarrow> string \<Rightarrow> mem \<Rightarrow> error option \<times> mem" where
  "mem_Copy path bytes w = (None, w\<lparr>files := (path, bytes) # files w\<rparr>)"

definition mem_Close :: "string \<Rightarrow> mem \<Rightarrow> error option \<times> mem" where
  "mem_Close name w = (None, w)"

definition mem_cp :: "string \<Rightarrow> string \<Rightarrow> mem \<Rightarrow> error option \<times> mem" where
  "mem_cp src dst w =
     (case map_of (files w) src of
        None \<Rightarrow> (Some (Error ''exit status 1''), w)
      | Some c \<Rightarrow>
          if dst \<in> set (readonly w) then (Some (Error ''exit status 1''), w)
          else (None, w\<lparr>files := (dst, c) # files w\<rparr>))"

definition mem_Put :: "string \<Rightarrow> string \<Rightarrow> mem \<Rightarrow> error option \<times> mem" where
  "mem_Put key bytes w = (None, w\<lparr>blobs := (key, bytes) # blobs w\<rparr>)"

definition mem_Get :: "string \<Rightarrow> mem \<Rightarrow> (error + string) \<times> mem" where
  "mem_Get key w =
     (case map_of (blobs w) key of
        None \<Rightarrow> (Inl (Error (''no such key: '' @ key)), w)
      | Some c \<Rightarrow> (Inr c, w))"

definition memIndex :: "mem DataIndex" where
  "memIndex = \<lparr>BlobStore = \<lparr>Put = mem_Put, Get = mem_Get\<rparr>\<rparr>"

definition memEnv :: "mem env" where
  "memEnv =
     \<lparr>mainDataIndex = (\<lambda>w. (Inr memIndex, w)),
      NewManifest = (\<lambda>path w. (tracked w, w)),
      os_Open = mem_Open,
      os_Create = mem_Create,
      io_Copy = mem_Copy,
      file_Close = mem_Close,
      store_Close = mem_Close,
      exec_cp = mem_cp\<rparr>"

definition start :: "mem \<Rightarrow> mem world" where
  "start w = \<lparr>trace = [], ext = w\<rparr>"

text \<open>Two valid hashes, and the worlds of the examples.\<close>

definition hashA :: string where
  "hashA = ''aaaaaaaaaaaaaaaaaaaaaaaaaaaaaaaaaaaaaaaa''"

definition hashB :: string where
  "hashB = ''0123456789abcdef0123456789ABCDEF01234567''"

text \<open>\<open>fileA\<close> and \<open>fileB\<close> have the same content, \<open>fileC\<close> another; the store holds
  the blob of \<open>hashA\<close>.\<close>

definition worldABC :: mem where
  "worldABC =
     \<lparr>files = [(''fileA'', ''one''), (''fileB'', ''one''), (''fileC'', ''two'')],
      blobs = [(blobKey hashA, ''one'')],
      tracked = [(''fileA'', hashA), (''fileB'', hashA), (''fileC'', hashB)],
      readonly = []\<rparr>"







section \<open>Properties of the hash utilities\<close>

subsection \<open>isHash\<close>

lemma mod_window: "q * m \<le> b \<Longrightarrow> b < q * m + m \<Longrightarrow> b mod m = b - q * (m::nat)"
proof -
  assume a: "q * m \<le> b" "b < q * m + m"
  then have "b = (b - q * m) + q * m" by simp
  then have "b mod m = (b - q * m) mod m" by (metis mod_mult_self1)
  with a show ?thesis by simp
qed

lemma two_byte_high:
  assumes "0xC2 \<le> b0" "b0 \<le> 0xDF"
  shows "(0x80::nat) \<le> b0 mod 32 * 64 + x"
proof -
  from assms have "2 \<le> b0 mod 32" using mod_window [of 6 32 b0] by simp
  then show ?thesis by simp
qed

lemma three_byte_high:
  assumes "0xE0 \<le> b0" "b0 \<le> 0xEF" "acceptLo b0 \<le> b1" "b1 \<le> acceptHi b0"
  shows "(0x80::nat) \<le> b0 mod 16 * 4096 + b1 mod 64 * 64 + x"
proof (cases "b0 = 0xE0")
  case True
  with assms have "0xA0 \<le> b1" "b1 \<le> 0xBF" by (simp_all add: acceptLo_def acceptHi_def)
  then have "32 \<le> b1 mod 64" using mod_window [of 2 64 b1] by simp
  then show ?thesis by simp
next
  case False
  with assms have "1 \<le> b0 mod 16" using mod_window [of 14 16 b0] by simp
  then show ?thesis by simp
qed

lemma four_byte_high:
  assumes "0xF0 \<le> b0" "b0 \<le> 0xF4" "acceptLo b0 \<le> b1" "b1 \<le> acceptHi b0"
  shows "(0x80::nat) \<le> b0 mod 8 * 262144 + b1 mod 64 * 4096 + x"
proof (cases "b0 = 0xF0")
  case True
  with assms have "0x90 \<le> b1" "b1 \<le> 0xBF" by (simp_all add: acceptLo_def acceptHi_def)
  then have "16 \<le> b1 mod 64" using mod_window [of 2 64 b1] by simp
  then show ?thesis by simp
next
  case False
  with assms have "1 \<le> b0 mod 8" using mod_window [of 30 8 b0] by simp
  then show ?thesis by simp
qed

text \<open>A byte below \<open>0x80\<close> is its own code point; any other first byte gives a code
  point of at least \<open>0x80\<close> (a decoded one, or U+FFFD).\<close>

lemma decodeRune_ascii: "b < 0x80 \<Longrightarrow> decodeRune (b # bs) = (b, 1)"
  by simp

lemma decodeRune_high: "\<not> b < 0x80 \<Longrightarrow> 0x80 \<le> fst (decodeRune (b # bs))"
  using two_byte_high [of b] three_byte_high [of b] four_byte_high [of b]
  by (simp add: RuneError_def add.assoc split: list.splits)

lemma hex_rune_ascii: "unicode_Is ASCII_Hex_Digit r \<Longrightarrow> r < 0x80"
  by (auto simp: unicode_Is_def ASCII_Hex_Digit_def)

lemma allHexRunes_runes:
  "allHexRunes (runes bs) \<longleftrightarrow> list_all (unicode_Is ASCII_Hex_Digit) bs"
proof (induction bs rule: runes.induct)
  case 1
  show ?case by simp
next
  case (2 b bs)
  show ?case
  proof (cases "b < 0x80")
    case True
    with 2 show ?thesis by simp
  next
    case False
    have "\<not> unicode_Is ASCII_Hex_Digit (fst (decodeRune (b # bs)))"
      using decodeRune_high [OF False, of bs] hex_rune_ascii by fastforce
    moreover have "\<not> unicode_Is ASCII_Hex_Digit b"
      using False hex_rune_ascii by blast
    ultimately show ?thesis by simp
  qed
qed

lemma hex_char: "unicode_Is ASCII_Hex_Digit (of_char c) \<longleftrightarrow> c \<in> hexDigitChars"
proof -
  have "c \<in> hexDigitChars \<longleftrightarrow> (of_char c :: nat) \<in> of_char ` hexDigitChars"
    by (simp add: inj_image_mem_iff inj_of_char)
  also have "\<dots> \<longleftrightarrow> unicode_Is ASCII_Hex_Digit (of_char c)"
    unfolding hexDigitChars_def unicode_Is_def ASCII_Hex_Digit_def
    by simp arith
  finally show ?thesis by simp
qed

lemma isHash_iff: "isHash s \<longleftrightarrow> length s = 40 \<and> set s \<subseteq> hexDigitChars"
  by (auto simp: isHash_def allHexRunes_runes list_all_iff hex_char)

text \<open>A string whose code points are all hex digits is ASCII: its code points are
  its bytes.\<close>

lemma allHexRunes_list_all: "allHexRunes rs \<longleftrightarrow> list_all (unicode_Is ASCII_Hex_Digit) rs"
  by (induction rs) auto

lemma runes_hex_bytes: "allHexRunes (runes bs) \<Longrightarrow> runes bs = bs"
proof (induction bs rule: runes.induct)
  case 1
  show ?case by simp
next
  case (2 b bs)
  let ?P = "unicode_Is ASCII_Hex_Digit"
  let ?r = "fst (decodeRune (b # bs))"
  let ?rest = "runes (drop (snd (decodeRune (b # bs)) - 1) bs)"
  from "2.prems" have "list_all ?P (?r # ?rest)"
    by (simp only: runes.simps allHexRunes_list_all)
  then have hd: "?P ?r" and tl: "list_all ?P ?rest"
    by (simp_all only: list.pred_inject)
  from hd have "?r < 0x80" by (rule hex_rune_ascii)
  with decodeRune_high [of b bs] have ascii: "b < 0x80" by (cases "b < 0x80") auto
  note one = decodeRune_ascii [OF ascii, of bs]
  from tl have "allHexRunes (runes bs)"
    by (simp only: one snd_conv allHexRunes_list_all) simp
  with "2.IH" have "runes bs = bs" by (simp only: one snd_conv) simp
  then show ?case by (simp only: runes.simps one fst_conv snd_conv) simp
qed

lemma isHash_runes:
  "isHash s \<longleftrightarrow>
     length (runes (map of_char s)) = 40 \<and> allHexRunes (runes (map of_char s))"
proof
  assume "isHash s"
  then have "length s = 40" "allHexRunes (runes (map of_char s))"
    by (simp_all add: isHash_def split: if_splits)
  with runes_hex_bytes [of "map of_char s"] show
    "length (runes (map of_char s)) = 40 \<and> allHexRunes (runes (map of_char s))"
    by simp
next
  assume a: "length (runes (map of_char s)) = 40 \<and> allHexRunes (runes (map of_char s))"
  with runes_hex_bytes [of "map of_char s"] have "length s = 40" by simp
  with a show "isHash s" by (simp add: isHash_def)
qed

lemma isHash_hashA: "isHash hashA"
  unfolding hashA_def by code_simp

lemma isHash_hashB: "isHash hashB"
  unfolding hashB_def by code_simp


text \<open>
  C3.  A string is a hash exactly if it has 40 characters, each of them one of
  \<open>0-9\<close>, \<open>a-f\<close>, \<open>A-F\<close>, whether the characters are counted as bytes or as the
  code points of the \<open>range\<close> loop: forty times \<open>a\<close> is a hash, forty times \<open>g\<close> and
  \<open>abc\<close> are not.
\<close>

theorem isHash_spec:
  "(isHash s \<longleftrightarrow> length s = 40 \<and> (\<forall>c \<in> set s. c \<in> hexDigitChars))
   \<and> (isHash s \<longleftrightarrow>
        length (runes (map of_char s)) = 40 \<and> allHexRunes (runes (map of_char s)))
   \<and> isHash (replicate 40 CHR ''a'')
   \<and> \<not> isHash (replicate 40 CHR ''g'')
   \<and> \<not> isHash ''abc''"
proof -
  have "isHash s \<longleftrightarrow> length s = 40 \<and> (\<forall>c \<in> set s. c \<in> hexDigitChars)"
    by (simp add: isHash_iff subset_eq)
  moreover note isHash_runes [of s]
  moreover have "isHash (replicate 40 CHR ''a'')"
    by (simp add: isHash_iff hexDigitChars_def)
  moreover have "\<not> isHash (replicate 40 CHR ''g'')"
    by (simp add: isHash_iff hexDigitChars_def)
  moreover have "\<not> isHash ''abc''"
    by (simp add: isHash_iff)
  ultimately show ?thesis by (intro conjI)
qed

theorem isHash_spec_witness:
  "isHash ''0123456789abcdefABCDEF0123456789abcdefAB''
   \<and> \<not> isHash ''0123456789abcdefABCDEF0123456789abcdefA''
   \<and> \<not> isHash ''0123456789abcdefABCDEF0123456789abcdefAx''"
  using isHash_spec [of "''0123456789abcdefABCDEF0123456789abcdefAB''"]
    isHash_spec [of "''0123456789abcdefABCDEF0123456789abcdefA''"]
    isHash_spec [of "''0123456789abcdefABCDEF0123456789abcdefAx''"]
  by (simp add: hexDigitChars_def)

subsection \<open>shortHash\<close>

text \<open>
  C8, as the code has it.  On a string of at least 7 bytes, \<open>shortHash\<close> returns its
  first 7 bytes; every valid hash is such a string.  On a shorter string the slice
  expression panics.
\<close>

theorem shortHash_spec:
  "(7 \<le> length hash \<longrightarrow>
      (\<exists>r. shortHash hash = Inr r \<and> length r = 7 \<and> prefix r hash))
   \<and> (isHash hash \<longrightarrow> shortHash hash = Inr (take 7 hash))
   \<and> (length hash < 7 \<longrightarrow> shortHash hash = Inl (Panic ''slice bounds out of range''))"
  by (auto simp: shortHash_def isHash_iff take_is_prefix)

theorem shortHash_spec_witness:
  "shortHash ''0123456789'' = Inr ''0123456''
   \<and> shortHash hashB = Inr ''0123456''
   \<and> shortHash ''012345'' = Inl (Panic ''slice bounds out of range'')"
  using shortHash_spec [of "''0123456789''"] shortHash_spec [of hashB]
    shortHash_spec [of "''012345''"] isHash_hashB
  by (simp add: shortHash_def hashB_def)

text \<open>C8 fails as written: \<open>shortHash\<close> is not defined on every string.  On \<open>abc\<close> it
  panics.\<close>

theorem shortHash_short_panics:
  "shortHash ''abc'' = Inl (Panic ''slice bounds out of range'')"
  by (simp add: shortHash_def)

subsection \<open>set and validHashes\<close>

lemma set_deduplicate: "set (deduplicate xs) = set xs"
  by (induction xs) auto

lemma distinct_deduplicate: "distinct (deduplicate xs)"
  by (induction xs) auto

lemma set_loop_deduplicate:
  "dom elems = set dedup \<Longrightarrow>
   set_loop slice dedup elems = dedup @ filter (\<lambda>x. x \<notin> set dedup) (deduplicate slice)"
proof (induction slice arbitrary: dedup elems)
  case Nil
  show ?case by simp
next
  case (Cons elem slice)
  show ?case
  proof (cases "elems elem = None")
    case True
    then have new: "elem \<notin> set dedup" using Cons.prems by auto
    have d: "dom (elems(elem \<mapsto> True)) = set (dedup @ [elem])"
      using Cons.prems by simp
    have "set_loop (elem # slice) dedup elems
          = set_loop slice (dedup @ [elem]) (elems(elem \<mapsto> True))"
      using True by simp
    also have "\<dots> = (dedup @ [elem])
                 @ filter (\<lambda>x. x \<notin> set (dedup @ [elem])) (deduplicate slice)"
      using Cons.IH [OF d] .
    also have "\<dots> = dedup @ filter (\<lambda>x. x \<notin> set dedup) (deduplicate (elem # slice))"
      using new by (simp add: conj_commute)
    finally show ?thesis .
  next
    case False
    then have old: "elem \<in> set dedup" using Cons.prems by auto
    have "filter (\<lambda>x. x \<noteq> elem \<and> x \<notin> set dedup) (deduplicate slice)
          = filter (\<lambda>x. x \<notin> set dedup) (deduplicate slice)"
      using old by (intro filter_cong) auto
    with Cons.IH [OF Cons.prems] False old show ?thesis by auto
  qed
qed

lemma set_go_deduplicate: "set_go slice = deduplicate slice"
  by (simp add: set_go_def set_loop_deduplicate)

lemma validHashes_loop_fst:
  "fst (validHashes_loop hashes valid err) = valid @ filter isHash hashes"
  by (induction hashes arbitrary: valid err) auto

lemma validHashes_loop_snd:
  "snd (validHashes_loop hashes valid err) \<noteq> None
   \<longleftrightarrow> err \<noteq> None \<or> (\<exists>h \<in> set hashes. \<not> isHash h)"
  by (induction hashes arbitrary: valid err) auto

lemma validHashes_loop_err:
  "snd (validHashes_loop hashes valid err)
     = (case filter (\<lambda>h. \<not> isHash h) hashes of
          [] \<Rightarrow> err
        | bad \<Rightarrow> Some (Error (''invalid <hash>: '' @ last bad)))"
proof (induction hashes arbitrary: valid err)
  case Nil
  show ?case by simp
next
  case (Cons h hs)
  show ?case
  proof (cases "isHash h")
    case True
    then show ?thesis by (simp add: Cons.IH)
  next
    case False
    then show ?thesis by (simp add: Cons.IH split: list.splits)
  qed
qed

text \<open>
  C10.  \<open>validHashes\<close> returns the valid hashes of the deduplicated input, in first-seen
  order, and an error exactly if the deduplicated input has an invalid entry (the
  error names the last of them); the valid hashes are returned with the error.
\<close>

theorem validHashes_spec:
  "fst (validHashes hashes) = filter isHash (deduplicate hashes)
   \<and> (snd (validHashes hashes) \<noteq> None
        \<longleftrightarrow> (\<exists>h \<in> set (deduplicate hashes). \<not> isHash h))
   \<and> snd (validHashes hashes)
       = (case filter (\<lambda>h. \<not> isHash h) (deduplicate hashes) of
            [] \<Rightarrow> None
          | bad \<Rightarrow> Some (Error (''invalid <hash>: '' @ last bad)))
   \<and> set_go hashes = deduplicate hashes"
proof (intro conjI)
  show "fst (validHashes hashes) = filter isHash (deduplicate hashes)"
    by (simp add: validHashes_def set_go_deduplicate validHashes_loop_fst)
  show "snd (validHashes hashes) \<noteq> None
          \<longleftrightarrow> (\<exists>h \<in> set (deduplicate hashes). \<not> isHash h)"
    using validHashes_loop_snd [of "deduplicate hashes" "[]" None]
    by (simp add: validHashes_def set_go_deduplicate del: not_None_eq)
  show "snd (validHashes hashes)
       = (case filter (\<lambda>h. \<not> isHash h) (deduplicate hashes) of
            [] \<Rightarrow> None
          | bad \<Rightarrow> Some (Error (''invalid <hash>: '' @ last bad)))"
    by (simp add: validHashes_def set_go_deduplicate validHashes_loop_err)
  show "set_go hashes = deduplicate hashes"
    by (rule set_go_deduplicate)
qed

theorem validHashes_spec_witness:
  "validHashes [hashA, ''zz'', hashA, hashB, ''zz'']
     = ([hashA, hashB], Some (Error ''invalid <hash>: zz''))
   \<and> fst (validHashes [hashA, ''zz'', hashA, hashB, ''zz''])
       = filter isHash (deduplicate [hashA, ''zz'', hashA, hashB, ''zz''])
   \<and> (\<exists>h \<in> set (deduplicate [hashA, ''zz'', hashA, hashB, ''zz'']). \<not> isHash h)"
proof -
  have run: "validHashes [hashA, ''zz'', hashA, hashB, ''zz'']
     = ([hashA, hashB], Some (Error ''invalid <hash>: zz''))"
    by code_simp
  with validHashes_spec [of "[hashA, ''zz'', hashA, hashB, ''zz'']"] show ?thesis
    by simp
qed

subsection \<open>readerHash\<close>











text \<open>
  C7, as the claim states it, fails on a stream that stalls.  The stream \<open>stalledABC\<close>
  holds the bytes \<open>abc\<close> and ends with \<open>io.EOF\<close>, as the stream of the one piece \<open>abc\<close>
  does, but its first hundred reads return nothing: \<open>bufio\<close> gives up with
  \<open>io.ErrNoProgress\<close> and \<open>readerHash\<close> returns the empty string and that error, where
  the other stream gets its digest.
\<close>

theorem stalled_stream_not_hashed:
  "contents stalledABC = contents (Chunk ''abc'' EOF)
   \<and> endsWithEOF stalledABC
   \<and> readerHash firstBytesSum (Chunk ''abc'' EOF)
       = (''6162630000000000000000000000000000000000'', None)
   \<and> readerHash firstBytesSum stalledABC = ('''', Some ErrNoProgress)"
  unfolding stalledABC_def by code_simp



section \<open>Properties of the batch runner\<close>

subsection \<open>The loop\<close>

text \<open>One turn of the loop: the hash is skipped, rejected, not found, its transfer
  fails, or it is transferred and recorded.\<close>

lemma runLoop_turn:
  obtains
    (skip) "seen x \<noteq> None"
      "\<And>xs. runLoop nm f d (x # xs) seen s = runLoop nm f d xs seen s"
  | (invalid) "seen x = None" "\<not> isHash x"
      "\<And>xs. runLoop nm f d (x # xs) seen s
              = (Some (Error (''invalid <hash>: '' @ x)), seen, s)"
  | (nopath) err s1 where "seen x = None" "isHash x"
      "blobPaths nm x s = (Inl err, s1)"
      "\<And>xs. runLoop nm f d (x # xs) seen s = (Some err, seen, s1)"
  | (failed) paths s1 err s2 where "seen x = None" "isHash x"
      "blobPaths nm x s = (Inr paths, s1)" "f d x paths s1 = (Some err, s2)"
      "\<And>xs. runLoop nm f d (x # xs) seen s = (Some err, seen, s2)"
  | (ok) paths s1 s2 where "seen x = None" "isHash x"
      "blobPaths nm x s = (Inr paths, s1)" "f d x paths s1 = (None, s2)"
      "\<And>xs. runLoop nm f d (x # xs) seen s = runLoop nm f d xs (seen(x \<mapsto> True)) s2"
proof (cases "seen x \<noteq> None")
  case True
  then show ?thesis using skip by simp
next
  case new: False
  show ?thesis
  proof (cases "isHash x")
    case False
    with new show ?thesis using invalid by simp
  next
    case valid: True
    obtain p s1 where p: "blobPaths nm x s = (p, s1)" by (cases "blobPaths nm x s")
    show ?thesis
    proof (cases p)
      case (Inl err)
      with new valid p show ?thesis using nopath [of err s1] by simp
    next
      case (Inr paths)
      obtain q s2 where q: "f d x paths s1 = (q, s2)" by (cases "f d x paths s1")
      show ?thesis
      proof (cases q)
        case (Some err)
        with new valid p Inr q show ?thesis using failed [of paths s1 err s2] by simp
      next
        case None
        with new valid p Inr q show ?thesis using ok [of paths s1 s2] by simp
      qed
    qed
  qed
qed

text \<open>A batch in two parts: the loop over the first part, then, unless that failed,
  the loop over the second from where the first ended.\<close>

lemma runLoop_append:
  "runLoop nm f d (xs @ ys) seen s =
     (case runLoop nm f d xs seen s of
        (Some err, seen', s') \<Rightarrow> (Some err, seen', s')
      | (None, seen', s') \<Rightarrow> runLoop nm f d ys seen' s')"
proof (induction xs arbitrary: seen s)
  case Nil
  show ?case by simp
next
  case (Cons x xs)
  show ?case
  proof (cases rule: runLoop_turn [of seen x nm f d s])
    case skip
    show ?thesis by (simp only: append_Cons skip(2) Cons.IH)
  next
    case invalid
    show ?thesis by (simp only: append_Cons invalid(3) prod.case option.case)
  next
    case (nopath err s1)
    show ?thesis by (simp only: append_Cons nopath(4) prod.case option.case)
  next
    case (failed paths s1 err s2)
    show ?thesis by (simp only: append_Cons failed(5) prod.case option.case)
  next
    case (ok paths s1 s2)
    show ?thesis by (simp only: append_Cons ok(5) Cons.IH)
  qed
qed

text \<open>Only valid hashes enter \<open>done\<close>.\<close>

lemma runLoop_done_valid:
  assumes "runLoop nm f d xs seen s = (r, seen', s')"
    and "\<And>h. seen h \<noteq> None \<Longrightarrow> isHash h"
  shows "seen' h \<noteq> None \<Longrightarrow> isHash h"
  using assms
proof (induction xs arbitrary: seen s)
  case Nil
  then show ?case by simp
next
  case (Cons x xs)
  show ?case
  proof (cases rule: runLoop_turn [of seen x nm f d s])
    case skip
    from Cons.prems(2) have "runLoop nm f d xs seen s = (r, seen', s')"
      by (simp only: skip(2))
    from Cons.IH [OF Cons.prems(1) this Cons.prems(3)] show ?thesis .
  next
    case invalid
    from Cons.prems(2) have "seen' = seen" by (simp only: invalid(3)) simp
    with Cons.prems(1,3) show ?thesis by blast
  next
    case (nopath err s1)
    from Cons.prems(2) have "seen' = seen" by (simp only: nopath(4)) simp
    with Cons.prems(1,3) show ?thesis by blast
  next
    case (failed paths s1 err s2)
    from Cons.prems(2) have "seen' = seen" by (simp only: failed(5)) simp
    with Cons.prems(1,3) show ?thesis by blast
  next
    case (ok paths s1 s2)
    from Cons.prems(2)
    have run: "runLoop nm f d xs (seen(x \<mapsto> True)) s2 = (r, seen', s')"
      by (simp only: ok(5))
    have "\<And>h. (seen(x \<mapsto> True)) h \<noteq> None \<Longrightarrow> isHash h"
      using ok(2) Cons.prems(3) by (auto split: if_splits)
    from Cons.IH [OF Cons.prems(1) run this] show ?thesis .
  qed
qed

lemma runLoop_invalid_next:
  assumes "seen b = None" and "\<not> isHash b"
  shows "runLoop nm f d (b # post) seen s = (Some (Error (''invalid <hash>: '' @ b)), seen, s)"
  using assms by simp

subsection \<open>C9: the empty batch\<close>

text \<open>
  C9.  On the empty list the runner returns its error in the state it was called in:
  whatever \<open>mainDataIndex\<close> (\<open>mdi\<close>), \<open>NewManifest\<close> (\<open>nm\<close>) and \<open>f\<close> would do, none of them has run.  For
  the two commands without \<open>--all\<close> this means no event at all, and \<open>f\<close> is not called.
\<close>

theorem empty_batch_rejected:
  "blobCmdRunFunc mdi nm [] f s
     = (Some (Error ''at least one <hash> argument required.''), s)
   \<and> invoked mdi nm [] f s = []
   \<and> blobPutCmd e False [] w = (Some (Error ''at least one <hash> argument required.''), w)
   \<and> blobGetCmd e False [] w = (Some (Error ''at least one <hash> argument required.''), w)"
  by (simp add: blobCmdRunFunc_def invoked_def blobPutCmd_def blobGetCmd_def blobCmdHashes_def)

subsection \<open>C1: validation is per item\<close>

text \<open>
  C1 fails as written: with a valid, tracked hash before an invalid one, the blob of
  the first is uploaded before the batch is rejected.
\<close>

theorem transfer_before_validation_error:
  "fst (blobPutCmd memEnv False [hashA, ''zz''] (start worldABC))
     = Some (Error ''invalid <hash>: zz'')
   \<and> storeCalls (blobKey hashA)
        (trace (snd (blobPutCmd memEnv False [hashA, ''zz''] (start worldABC)))) = 1"
  by code_simp

text \<open>
  C1, as the code has it.  Validation is done hash by hash, in the order of the batch.
  When the index has been opened and the hashes before the first invalid one, \<open>b\<close>,
  have been transferred without error, the batch ends with the error for \<open>b\<close> in the
  state those transfers left: they are not undone, and nothing is done for \<open>b\<close> or
  for any hash after it.
\<close>

theorem validation_per_item:
  assumes "mdi s0 = (Inr d, s1)"
    and "runLoop nm f d pre Map.empty s1 = (None, seen, s2)"
    and "\<not> isHash b"
  shows "blobCmdRunFunc mdi nm (pre @ b # post) f s0
           = (Some (Error (''invalid <hash>: '' @ b)), s2)"
proof -
  have "seen b = None"
    using runLoop_done_valid [OF assms(2), of b] assms(3) by (cases "seen b") auto
  then have "runLoop nm f d (pre @ b # post) Map.empty s1
               = (Some (Error (''invalid <hash>: '' @ b)), seen, s2)"
    using assms(2,3) by (simp add: runLoop_append)
  with assms(1) show ?thesis by (simp add: blobCmdRunFunc_def)
qed

theorem validation_per_item_witness:
  "blobCmdRunFunc (openIndex memEnv) (readManifest memEnv) ([hashA] @ ''zz'' # [hashB])
     (blobPut_f memEnv) (start worldABC)
   = (Some (Error (''invalid <hash>: '' @ ''zz'')),
      snd (snd (runLoop (readManifest memEnv) (blobPut_f memEnv) memIndex [hashA]
        Map.empty (snd (openIndex memEnv (start worldABC))))))"
proof -
  let ?s1 = "snd (openIndex memEnv (start worldABC))"
  let ?pre = "runLoop (readManifest memEnv) (blobPut_f memEnv) memIndex [hashA] Map.empty ?s1"
  have "fst (openIndex memEnv (start worldABC)) = Inr memIndex"
    by (simp add: openIndex_def call_def memEnv_def)
  then have 1: "openIndex memEnv (start worldABC) = (Inr memIndex, ?s1)"
    by (simp add: prod_eq_iff)
  have "fst ?pre = None" by code_simp
  then have 2: "?pre = (None, fst (snd ?pre), snd (snd ?pre))" by (simp add: prod_eq_iff)
  have 3: "\<not> isHash ''zz''" by (simp add: isHash_def)
  from validation_per_item
    [where mdi = "openIndex memEnv" and ?s0.0 = "start worldABC"
       and nm = "readManifest memEnv" and f = "blobPut_f memEnv"
       and post = "[hashB]", OF 1 2 3]
  show ?thesis .
qed


subsection \<open>C6: a failing transfer\<close>




subsection \<open>Looking up paths\<close>

lemma snd_blobPaths: "snd (blobPaths nm h s) = snd (nm '''' s)"
  by (simp add: blobPaths_def split: prod.splits)




subsection \<open>Counting along the loop\<close>

text \<open>
  \<open>c\<close> is any count on states that reading the manifest leaves alone.  If a call of
  \<open>f\<close> raises it by at most one, and only when called with \<open>H\<close>, then the whole loop
  raises it by at most one.
\<close>

lemma runLoop_count_bound:
  fixes c :: "'s \<Rightarrow> nat"
  assumes nm: "\<And>p s. c (snd (nm p s)) = c s"
    and f: "\<And>d h ps s. c (snd (f d h ps s)) \<le> c s + (if h = H then 1 else 0)"
  shows "c (snd (snd (runLoop nm f d xs seen s)))
           \<le> c s + (if H \<in> set xs - dom seen then 1 else 0)"
proof (induction xs arbitrary: seen s)
  case Nil
  show ?case by simp
next
  case (Cons x xs)
  show ?case
  proof (cases rule: runLoop_turn [of seen x nm f d s])
    case skip
    have "c (snd (snd (runLoop nm f d xs seen s)))
            \<le> c s + (if H \<in> set xs - dom seen then 1 else 0)"
      by (rule Cons.IH)
    also have "\<dots> \<le> c s + (if H \<in> set (x # xs) - dom seen then 1 else 0)"
      by auto
    finally show ?thesis by (simp only: skip(2))
  next
    case invalid
    show ?thesis by (simp only: invalid(3)) simp
  next
    case (nopath err s1)
    have "c s1 = c s" using nm [of "''''" s] snd_blobPaths [of nm x s] nopath(3) by simp
    then show ?thesis by (simp only: nopath(4)) simp
  next
    case (failed paths s1 err s2)
    have s1: "c s1 = c s" using nm [of "''''" s] snd_blobPaths [of nm x s] failed(3) by simp
    have "c s2 \<le> c s1 + (if x = H then 1 else 0)"
      using f [of d x paths s1] failed(4) by simp
    with s1 have "c s2 \<le> c s + (if H \<in> set (x # xs) - dom seen then 1 else 0)"
      using failed(1) by (auto split: if_splits)
    then show ?thesis by (simp only: failed(5)) simp
  next
    case (ok paths s1 s2)
    have s1: "c s1 = c s" using nm [of "''''" s] snd_blobPaths [of nm x s] ok(3) by simp
    have s2: "c s2 \<le> c s1 + (if x = H then 1 else 0)"
      using f [of d x paths s1] ok(4) by simp
    have "c (snd (snd (runLoop nm f d xs (seen(x \<mapsto> True)) s2)))
            \<le> c s2 + (if H \<in> set xs - dom (seen(x \<mapsto> True)) then 1 else 0)"
      by (rule Cons.IH)
    also have "\<dots> \<le> c s + (if H \<in> set (x # xs) - dom seen then 1 else 0)"
      using s1 s2 ok(1) by (auto split: if_splits)
    finally show ?thesis by (simp only: ok(5))
  qed
qed


lemma blobCmdRunFunc_count_bound:
  fixes c :: "'s \<Rightarrow> nat"
  assumes mdi: "\<And>s. c (snd (mdi s)) = c s"
    and nm: "\<And>p s. c (snd (nm p s)) = c s"
    and f: "\<And>d h ps s. c (snd (f d h ps s)) \<le> c s + (if h = H then 1 else 0)"
  shows "c (snd (blobCmdRunFunc mdi nm hashes f s)) \<le> c s + 1"
proof (cases "length hashes < 1")
  case True
  then show ?thesis by (simp add: blobCmdRunFunc_def)
next
  case False
  obtain r s1 where r: "mdi s = (r, s1)" by (cases "mdi s")
  with mdi [of s] have s1: "c s1 = c s" by simp
  show ?thesis
  proof (cases r)
    case (Inl err)
    with False r s1 show ?thesis by (simp add: blobCmdRunFunc_def)
  next
    case (Inr d)
    obtain e sn s2 where loop: "runLoop nm f d hashes Map.empty s1 = (e, sn, s2)"
      by (cases "runLoop nm f d hashes Map.empty s1")
    have "c (snd (snd (runLoop nm f d hashes Map.empty s1))) \<le> c s1 + 1"
      using runLoop_count_bound [of c nm f H d hashes Map.empty s1, OF nm f]
      by (auto split: if_splits)
    with False r Inr s1 loop show ?thesis
      by (simp add: blobCmdRunFunc_def)
  qed
qed

subsection \<open>The log of calls\<close>

lemma lifted_apply: "lifted op st = (fst (op (snd st)), (fst st, snd (op (snd st))))"
  by (simp add: lifted_def split: prod.splits)

lemma counting_apply:
  "counting f d h ps st
     = (fst (f d h ps (snd st)), (fst st @ [h], snd (f d h ps (snd st))))"
  by (simp add: counting_def split: prod.splits)

lemma blobPaths_lifted:
  "blobPaths (\<lambda>p. lifted (nm p)) h st
     = (fst (blobPaths nm h (snd st)), (fst st, snd (blobPaths nm h (snd st))))"
  by (simp add: blobPaths_def lifted_apply split: prod.splits)

text \<open>The wrapped run is the run itself, with the log beside it.\<close>

lemma runLoop_counting_same_run:
  "fst (runLoop (\<lambda>p. lifted (nm p)) (counting f) d xs seen (log, s))
     = fst (runLoop nm f d xs seen s)
   \<and> fst (snd (runLoop (\<lambda>p. lifted (nm p)) (counting f) d xs seen (log, s)))
     = fst (snd (runLoop nm f d xs seen s))
   \<and> snd (snd (snd (runLoop (\<lambda>p. lifted (nm p)) (counting f) d xs seen (log, s))))
     = snd (snd (runLoop nm f d xs seen s))"
proof (induction xs arbitrary: seen log s)
  case Nil
  show ?case by simp
next
  case (Cons x xs)
  let ?nm = "\<lambda>p. lifted (nm p)"
  show ?case
  proof (cases rule: runLoop_turn [of seen x nm f d s])
    case skip
    then have "runLoop ?nm (counting f) d (x # xs) seen (log, s)
                 = runLoop ?nm (counting f) d xs seen (log, s)"
      by simp
    then show ?thesis using Cons.IH [of seen log s] by (simp only: skip(2))
  next
    case invalid
    then have "runLoop ?nm (counting f) d (x # xs) seen (log, s)
                 = (Some (Error (''invalid <hash>: '' @ x)), seen, (log, s))"
      by simp
    then show ?thesis by (simp only: invalid(3)) simp
  next
    case (nopath err s1)
    then have "runLoop ?nm (counting f) d (x # xs) seen (log, s)
                 = (Some err, seen, (log, s1))"
      by (simp add: blobPaths_lifted)
    then show ?thesis by (simp only: nopath(4)) simp
  next
    case (failed paths s1 err s2)
    then have "runLoop ?nm (counting f) d (x # xs) seen (log, s)
                 = (Some err, seen, (log @ [x], s2))"
      by (simp add: blobPaths_lifted counting_apply)
    then show ?thesis by (simp only: failed(5)) simp
  next
    case (ok paths s1 s2)
    have "runLoop ?nm (counting f) d (x # xs) seen (log, s)
            = runLoop ?nm (counting f) d xs (seen(x \<mapsto> True)) (log @ [x], s2)"
      using ok(1-4) by (simp add: blobPaths_lifted counting_apply)
    then show ?thesis
      using Cons.IH [of "seen(x \<mapsto> True)" "log @ [x]" s2] by (simp only: ok(5))
  qed
qed

text \<open>What a run adds to the log: hashes of the batch that were not in \<open>done\<close>, each
  once.\<close>

lemma runLoop_counting_log:
  "\<exists>new. fst (snd (snd (runLoop (\<lambda>p. lifted (nm p)) (counting f) d xs seen (log, s))))
           = log @ new
         \<and> distinct new \<and> set new \<inter> dom seen = {} \<and> set new \<subseteq> set xs"
proof (induction xs arbitrary: seen log s)
  case Nil
  show ?case by simp
next
  case (Cons x xs)
  let ?nm = "\<lambda>p. lifted (nm p)"
  show ?case
  proof (cases rule: runLoop_turn [of seen x nm f d s])
    case skip
    then have step: "runLoop ?nm (counting f) d (x # xs) seen (log, s)
                 = runLoop ?nm (counting f) d xs seen (log, s)"
      by simp
    from Cons.IH [of seen log s] obtain new where
      "fst (snd (snd (runLoop ?nm (counting f) d xs seen (log, s)))) = log @ new"
      "distinct new" "set new \<inter> dom seen = {}" "set new \<subseteq> set xs"
      by blast
    then show ?thesis unfolding step by (intro exI [of _ new]) auto
  next
    case invalid
    then have "runLoop ?nm (counting f) d (x # xs) seen (log, s)
                 = (Some (Error (''invalid <hash>: '' @ x)), seen, (log, s))"
      by simp
    then show ?thesis by (intro exI [of _ "[]"]) simp
  next
    case (nopath err s1)
    then have "runLoop ?nm (counting f) d (x # xs) seen (log, s)
                 = (Some err, seen, (log, s1))"
      by (simp add: blobPaths_lifted)
    then show ?thesis by (intro exI [of _ "[]"]) simp
  next
    case (failed paths s1 err s2)
    then have "runLoop ?nm (counting f) d (x # xs) seen (log, s)
                 = (Some err, seen, (log @ [x], s2))"
      by (simp add: blobPaths_lifted counting_apply)
    then show ?thesis using failed(1) by (intro exI [of _ "[x]"]) auto
  next
    case (ok paths s1 s2)
    have step: "runLoop ?nm (counting f) d (x # xs) seen (log, s)
            = runLoop ?nm (counting f) d xs (seen(x \<mapsto> True)) (log @ [x], s2)"
      using ok(1-4) by (simp add: blobPaths_lifted counting_apply)
    from Cons.IH [of "seen(x \<mapsto> True)" "log @ [x]" s2] obtain new where new:
      "fst (snd (snd (runLoop ?nm (counting f) d xs (seen(x \<mapsto> True)) (log @ [x], s2))))
         = (log @ [x]) @ new"
      "distinct new" "set new \<inter> dom (seen(x \<mapsto> True)) = {}" "set new \<subseteq> set xs"
      by blast
    from new(3) have "x \<notin> set new" "set new \<inter> dom seen = {}" by auto
    with new(1,2,4) ok(1) show ?thesis unfolding step
      by (intro exI [of _ "x # new"]) auto
  qed
qed


lemma invoked_cases:
  obtains (none) "invoked mdi nm hashes f s = []"
  | (loop) d s1 where "mdi s = (Inr d, s1)"
      "invoked mdi nm hashes f s
         = fst (snd (snd (runLoop (\<lambda>p. lifted (nm p)) (counting f) d hashes Map.empty ([], s1))))"
proof (cases "length hashes < 1")
  case True
  then show ?thesis using none by (simp add: invoked_def blobCmdRunFunc_def)
next
  case False
  obtain r s1 where r: "mdi s = (r, s1)" by (cases "mdi s")
  show ?thesis
  proof (cases r)
    case (Inl err)
    with False r show ?thesis using none
      by (simp add: invoked_def blobCmdRunFunc_def lifted_apply)
  next
    case (Inr d)
    with False r show ?thesis using loop [of d s1]
      by (simp add: invoked_def blobCmdRunFunc_def lifted_apply split: prod.splits)
  qed
qed

lemma distinct_invoked: "distinct (invoked mdi nm hashes f s)"
proof (cases rule: invoked_cases [of mdi nm hashes f s])
  case none
  then show ?thesis by simp
next
  case (loop d s1)
  from runLoop_counting_log [of nm f d hashes Map.empty "[]" s1] loop(2)
  show ?thesis by auto
qed



lemma blobCmdRunFunc_counting_same_run:
  "fst (blobCmdRunFunc (lifted mdi) (\<lambda>p. lifted (nm p)) hashes (counting f) (log, s))
     = fst (blobCmdRunFunc mdi nm hashes f s)
   \<and> snd (snd (blobCmdRunFunc (lifted mdi) (\<lambda>p. lifted (nm p)) hashes (counting f) (log, s)))
     = snd (blobCmdRunFunc mdi nm hashes f s)"
proof (cases "length hashes < 1")
  case True
  then show ?thesis by (simp add: blobCmdRunFunc_def)
next
  case False
  obtain r s1 where r: "mdi s = (r, s1)" by (cases "mdi s")
  show ?thesis
  proof (cases r)
    case (Inl err)
    with False r show ?thesis by (simp add: blobCmdRunFunc_def lifted_apply)
  next
    case (Inr d)
    let ?wrapped = "runLoop (\<lambda>p. lifted (nm p)) (counting f) d hashes Map.empty (log, s1)"
    let ?plain = "runLoop nm f d hashes Map.empty s1"
    obtain q sn st where w: "?wrapped = (q, sn, st)" by (cases ?wrapped)
    obtain q' sn' s2 where p: "?plain = (q', sn', s2)" by (cases ?plain)
    from runLoop_counting_same_run [of nm f d hashes Map.empty log s1] w p
    have "q = q'" "snd st = s2" by simp_all
    with False r Inr w p show ?thesis by (simp add: blobCmdRunFunc_def lifted_apply)
  qed
qed

section \<open>Properties of the transfers\<close>

subsection \<open>Traces\<close>

lemma call_result: "call ev op s = (r, s') \<Longrightarrow> trace s' = trace s @ [ev]"
  by (auto simp: call_def split: prod.splits)

lemma trace_call: "trace (snd (call ev op s)) = trace s @ [ev]"
  by (simp add: call_def split: prod.splits)

lemma trace_deferred: "trace (deferred ev op s) = trace s @ [ev]"
  by (simp add: deferred_def trace_call)

lemma trace_pOut: "trace (pOut msg s) = trace s @ [Stdout msg]"
  by (simp add: pOut_def)

lemma storeCalls_append: "storeCalls k (xs @ ys) = storeCalls k xs + storeCalls k ys"
  by (simp add: storeCalls_def)

lemma storeCalls_Cons:
  "storeCalls k (ev # evs) = (if isStoreCall k ev then 1 else 0) + storeCalls k evs"
  by (simp add: storeCalls_def)

lemma storeCalls_Nil: "storeCalls k [] = 0"
  by (simp add: storeCalls_def)



lemma inj_blobKey: "blobKey h = blobKey H \<longleftrightarrow> h = H"
  by (simp add: blobKey_def)

subsection \<open>putBlob and getBlob\<close>

text \<open>The events of \<open>putBlob\<close>: the file is opened; if that worked, the blob is put once
  and the file closed, once or twice.\<close>

lemma putBlob_events:
  "\<exists>evs. trace (snd (putBlob e i h p s)) = trace s @ OsOpen p # evs
     \<and> (evs = [] \<or> evs = [StorePut (blobKey h), FileClose p]
          \<or> evs = [StorePut (blobKey h), FileClose p, FileClose p])"
proof -
  obtain r1 s1 where c1: "call (OsOpen p) (os_Open e p) s = (r1, s1)"
    by (cases "call (OsOpen p) (os_Open e p) s")
  note t1 = call_result [OF c1]
  show ?thesis
  proof (cases r1)
    case (Inl err)
    with c1 t1 show ?thesis by (simp add: putBlob_def)
  next
    case (Inr bf)
    obtain r2 s2 where c2:
      "call (StorePut (blobKey h)) (Put (BlobStore i) (blobKey h) bf) s1 = (r2, s2)"
      by (cases "call (StorePut (blobKey h)) (Put (BlobStore i) (blobKey h) bf) s1")
    note t2 = call_result [OF c2]
    show ?thesis
    proof (cases r2)
      case (Some err)
      with c1 Inr c2 t1 t2 show ?thesis by (simp add: putBlob_def trace_deferred)
    next
      case None
      obtain r3 s3 where c3: "call (FileClose p) (file_Close e p) s2 = (r3, s3)"
        by (cases "call (FileClose p) (file_Close e p) s2")
      note t3 = call_result [OF c3]
      from c1 Inr c2 None c3 t1 t2 t3 show ?thesis
        by (cases r3) (simp_all add: putBlob_def trace_deferred)
    qed
  qed
qed

lemma putBlob_storeCalls:
  "storeCalls k (trace (snd (putBlob e i h p s)))
     \<le> storeCalls k (trace s) + (if k = blobKey h then 1 else 0)"
  using putBlob_events [of e i h p s]
  by (auto simp: storeCalls_append storeCalls_Cons storeCalls_Nil)


text \<open>The events of \<open>getBlob\<close>: one call of \<open>Get\<close>, then only file and stream operations;
  all of them if nothing fails.\<close>

lemma getBlob_events:
  "\<exists>evs. trace (snd (getBlob e i h p s)) = trace s @ StoreGet (blobKey h) # evs
     \<and> storeGets evs = [] \<and> copies evs = [] \<and> (\<forall>k. storeCalls k evs = 0)
     \<and> (fst (getBlob e i h p s) = None \<longrightarrow>
          evs = [OsCreate p, IoCopy p, FileClose p, StoreClose (blobKey h),
                 FileClose p, StoreClose (blobKey h)])"
proof -
  let ?k = "blobKey h"
  obtain r1 s1 where c1: "call (StoreGet ?k) (Get (BlobStore i) ?k) s = (r1, s1)"
    by (cases "call (StoreGet ?k) (Get (BlobStore i) ?k) s")
  note t1 = call_result [OF c1]
  show ?thesis
  proof (cases r1)
    case (Inl err)
    with c1 t1 show ?thesis by (simp add: getBlob_def storeCalls_Nil)
  next
    case (Inr br)
    obtain r2 s2 where c2: "call (OsCreate p) (os_Create e p) s1 = (r2, s2)"
      by (cases "call (OsCreate p) (os_Create e p) s1")
    note t2 = call_result [OF c2]
    show ?thesis
    proof (cases r2)
      case (Some err)
      with c1 Inr c2 t1 t2 show ?thesis
        by (simp add: getBlob_def trace_deferred storeCalls_Cons storeCalls_Nil)
    next
      case create: None
      obtain r3 s3 where c3: "call (IoCopy p) (io_Copy e p br) s2 = (r3, s3)"
        by (cases "call (IoCopy p) (io_Copy e p br) s2")
      note t3 = call_result [OF c3]
      show ?thesis
      proof (cases r3)
        case (Some err)
        with c1 Inr c2 create c3 t1 t2 t3 show ?thesis
          by (simp add: getBlob_def getBlob_defers_def trace_deferred
                storeCalls_Cons storeCalls_Nil)
      next
        case copy: None
        obtain r4 s4 where c4: "call (FileClose p) (file_Close e p) s3 = (r4, s4)"
          by (cases "call (FileClose p) (file_Close e p) s3")
        note t4 = call_result [OF c4]
        show ?thesis
        proof (cases r4)
          case (Some err)
          with c1 Inr c2 create c3 copy c4 t1 t2 t3 t4 show ?thesis
            by (simp add: getBlob_def getBlob_defers_def trace_deferred
                  storeCalls_Cons storeCalls_Nil)
        next
          case close: None
          obtain r5 s5 where c5: "call (StoreClose ?k) (store_Close e ?k) s4 = (r5, s5)"
            by (cases "call (StoreClose ?k) (store_Close e ?k) s4")
          note t5 = call_result [OF c5]
          from c1 Inr c2 create c3 copy c4 close c5 t1 t2 t3 t4 t5 show ?thesis
            by (cases r5)
              (simp_all add: getBlob_def getBlob_defers_def trace_deferred
                 storeCalls_Cons storeCalls_Nil)
        qed
      qed
    qed
  qed
qed

subsection \<open>The functions of the two commands\<close>

lemma blobPut_f_storeCalls:
  "storeCalls (blobKey H) (trace (snd (blobPut_f e d h ps s)))
     \<le> storeCalls (blobKey H) (trace s) + (if h = H then 1 else 0)"
proof (cases ps)
  case Nil
  then show ?thesis by (simp add: blobPut_f_def)
next
  case (Cons p0 rest)
  from putBlob_storeCalls [of "blobKey H" e d h p0 "pOut (blobLine ''put'' h p0) s"]
  show ?thesis
    by (simp add: Cons blobPut_f_def trace_pOut storeCalls_append storeCalls_Cons
          storeCalls_Nil inj_blobKey eq_commute [of H h])
qed


text \<open>The loop over the other paths: no call of the store; as many copies as the loop
  got to, in the order of the paths, and all of them if nothing failed.\<close>

lemma copyToOthers_events:
  "\<exists>copied. prefix copied ps
     \<and> trace (snd (copyToOthers e h p0 ps s))
       = trace s @ concat (map (\<lambda>path. [Stdout (blobLine ''get'' h path), ExecCp p0 path])
                            copied)
     \<and> (fst (copyToOthers e h p0 ps s) = None \<longrightarrow> copied = ps)"
proof (induction ps arbitrary: s)
  case Nil
  show ?case by simp
next
  case (Cons path ps)
  let ?line = "\<lambda>path. [Stdout (blobLine ''get'' h path), ExecCp p0 path]"
  obtain r1 s1 where c1:
    "copyFile e p0 path (pOut (blobLine ''get'' h path) s) = (r1, s1)"
    by (cases "copyFile e p0 path (pOut (blobLine ''get'' h path) s)")
  have t1: "trace s1 = trace s @ ?line path"
    using call_result [of "ExecCp p0 path" "exec_cp e p0 path"
        "pOut (blobLine ''get'' h path) s" r1 s1] c1
    by (simp add: copyFile_def trace_pOut)
  show ?case
  proof (cases r1)
    case (Some err)
    have step: "copyToOthers e h p0 (path # ps) s = (Some err, s1)"
      using c1 Some by simp
    show ?thesis unfolding step
    proof (intro exI conjI impI)
      show "prefix [path] (path # ps)" by simp
      show "trace (snd (Some err, s1)) = trace s @ concat (map ?line [path])"
        using t1 by simp
      show "[path] = path # ps" if "fst (Some err, s1) = None"
        using that by simp
    qed
  next
    case None
    have step: "copyToOthers e h p0 (path # ps) s = copyToOthers e h p0 ps s1"
      using c1 None by simp
    from Cons.IH [of s1] obtain copied where "prefix copied ps
      \<and> trace (snd (copyToOthers e h p0 ps s1))
         = trace s1 @ concat (map ?line copied)
      \<and> (fst (copyToOthers e h p0 ps s1) = None \<longrightarrow> copied = ps)" ..
    then have n: "prefix copied ps"
      "trace (snd (copyToOthers e h p0 ps s1))
         = trace s1 @ concat (map ?line copied)"
      "fst (copyToOthers e h p0 ps s1) = None \<longrightarrow> copied = ps"
      by simp_all
    show ?thesis unfolding step
    proof (intro exI conjI impI)
      show "prefix (path # copied) (path # ps)" using n(1) by simp
      show "trace (snd (copyToOthers e h p0 ps s1)) = trace s @ concat (map ?line (path # copied))"
        using n(2) t1 by simp
      show "path # copied = path # ps" if "fst (copyToOthers e h p0 ps s1) = None"
        using that n(3) by simp
    qed
  qed
qed

lemma storeCalls_lines:
  "storeCalls k (concat (map (\<lambda>path. [Stdout (msg path), ExecCp p0 path]) ps)) = 0"
  by (induction ps) (simp_all add: storeCalls_Nil storeCalls_Cons)



text \<open>The function of \<open>blobGetCmd\<close> on a hash with at least one path.\<close>

lemma blobGet_f_events:
  "\<exists>evs copied. prefix copied others
     \<and> trace (snd (blobGet_f e d h (p0 # others) s))
         = trace s @ Stdout (blobLine ''get'' h p0) # StoreGet (blobKey h) # evs
             @ concat (map (\<lambda>path. [Stdout (blobLine ''get'' h path), ExecCp p0 path]) copied)
     \<and> storeGets evs = [] \<and> copies evs = [] \<and> (\<forall>k. storeCalls k evs = 0)
     \<and> (fst (blobGet_f e d h (p0 # others) s) = None \<longrightarrow>
          copied = others
          \<and> evs = [OsCreate p0, IoCopy p0, FileClose p0, StoreClose (blobKey h),
                   FileClose p0, StoreClose (blobKey h)])"
proof -
  let ?s0 = "pOut (blobLine ''get'' h p0) s"
  let ?line = "\<lambda>path. [Stdout (blobLine ''get'' h path), ExecCp p0 path]"
  let ?all = "[OsCreate p0, IoCopy p0, FileClose p0, StoreClose (blobKey h),
               FileClose p0, StoreClose (blobKey h)]"
  obtain r1 s1 where g: "getBlob e d h p0 ?s0 = (r1, s1)"
    by (cases "getBlob e d h p0 ?s0")
  from getBlob_events [of e d h p0 ?s0] obtain evs where
    "trace (snd (getBlob e d h p0 ?s0)) = trace ?s0 @ StoreGet (blobKey h) # evs
     \<and> storeGets evs = [] \<and> copies evs = [] \<and> (\<forall>k. storeCalls k evs = 0)
     \<and> (fst (getBlob e d h p0 ?s0) = None \<longrightarrow> evs = ?all)" ..
  then have evs:
    "trace s1 = trace s @ Stdout (blobLine ''get'' h p0) # StoreGet (blobKey h) # evs"
    "storeGets evs = []" "copies evs = []" "\<forall>k. storeCalls k evs = 0"
    "r1 = None \<longrightarrow> evs = ?all"
    by (simp_all add: g trace_pOut)
  show ?thesis
  proof (cases r1)
    case (Some err)
    have step: "blobGet_f e d h (p0 # others) s = (Some err, s1)"
      using g Some by (simp add: blobGet_f_def)
    show ?thesis unfolding step
      apply (rule exI [of _ evs])
      apply (rule exI [of _ "[]"])
      using evs(1-4) by simp
  next
    case None
    have step: "blobGet_f e d h (p0 # others) s = copyToOthers e h p0 others s1"
      using g None by (simp add: blobGet_f_def)
    from copyToOthers_events [of others e h p0 s1] obtain copied where
      "prefix copied others
       \<and> trace (snd (copyToOthers e h p0 others s1)) = trace s1 @ concat (map ?line copied)
       \<and> (fst (copyToOthers e h p0 others s1) = None \<longrightarrow> copied = others)" ..
    then have copied: "prefix copied others"
      "trace (snd (copyToOthers e h p0 others s1)) = trace s1 @ concat (map ?line copied)"
      "fst (copyToOthers e h p0 others s1) = None \<longrightarrow> copied = others"
      by simp_all
    show ?thesis unfolding step
      apply (rule exI [of _ evs])
      apply (rule exI [of _ copied])
      using evs None copied by simp
  qed
qed

text \<open>However it ends, it calls the store once, with the key of its hash.\<close>

lemma blobGet_f_storeCalls_eq:
  "storeCalls k (trace (snd (blobGet_f e d h (p0 # others) s)))
     = storeCalls k (trace s) + (if k = blobKey h then 1 else 0)"
proof -
  let ?line = "\<lambda>path. [Stdout (blobLine ''get'' h path), ExecCp p0 path]"
  from blobGet_f_events [of others e d h p0 s] obtain evs where
    "\<exists>copied. prefix copied others
     \<and> trace (snd (blobGet_f e d h (p0 # others) s))
         = trace s @ Stdout (blobLine ''get'' h p0) # StoreGet (blobKey h) # evs
             @ concat (map ?line copied)
     \<and> storeGets evs = [] \<and> copies evs = [] \<and> (\<forall>k. storeCalls k evs = 0)
     \<and> (fst (blobGet_f e d h (p0 # others) s) = None \<longrightarrow>
          copied = others
          \<and> evs = [OsCreate p0, IoCopy p0, FileClose p0, StoreClose (blobKey h),
                   FileClose p0, StoreClose (blobKey h)])" ..
  then obtain copied where
    "prefix copied others
     \<and> trace (snd (blobGet_f e d h (p0 # others) s))
         = trace s @ Stdout (blobLine ''get'' h p0) # StoreGet (blobKey h) # evs
             @ concat (map ?line copied)
     \<and> storeGets evs = [] \<and> copies evs = [] \<and> (\<forall>k. storeCalls k evs = 0)
     \<and> (fst (blobGet_f e d h (p0 # others) s) = None \<longrightarrow>
          copied = others
          \<and> evs = [OsCreate p0, IoCopy p0, FileClose p0, StoreClose (blobKey h),
                   FileClose p0, StoreClose (blobKey h)])" ..
  then have "trace (snd (blobGet_f e d h (p0 # others) s))
         = trace s @ Stdout (blobLine ''get'' h p0) # StoreGet (blobKey h) # evs
             @ concat (map ?line copied)"
    and "storeCalls k evs = 0"
    by simp_all
  then show ?thesis
    by (simp add: storeCalls_append storeCalls_Cons storeCalls_lines eq_commute [of k])
qed

lemma blobGet_f_storeCalls:
  "storeCalls (blobKey H) (trace (snd (blobGet_f e d h ps s)))
     \<le> storeCalls (blobKey H) (trace s) + (if h = H then 1 else 0)"
proof (cases ps)
  case Nil
  then show ?thesis by (simp add: blobGet_f_def)
next
  case (Cons p0 others)
  show ?thesis unfolding Cons
    by (simp add: blobGet_f_storeCalls_eq inj_blobKey eq_commute [of H h])
qed


subsection \<open>Opening the index and reading the manifest\<close>

lemma openIndex_storeCalls:
  "storeCalls k (trace (snd (openIndex e s))) = storeCalls k (trace s)"
  by (simp add: openIndex_def trace_call storeCalls_append storeCalls_Cons storeCalls_Nil)

lemma readManifest_storeCalls:
  "storeCalls k (trace (snd (readManifest e p s))) = storeCalls k (trace s)"
  by (simp add: readManifest_def trace_call storeCalls_append storeCalls_Cons storeCalls_Nil)

lemma blobCmdHashes_storeCalls:
  "storeCalls k (trace (snd (blobCmdHashes (readManifest e) all args s)))
     = storeCalls k (trace s)"
proof (cases all)
  case False
  then show ?thesis by (simp add: blobCmdHashes_def)
next
  case True
  obtain mf s1 where m: "readManifest e '''' s = (mf, s1)"
    by (cases "readManifest e '''' s")
  with readManifest_storeCalls [of k e "''''" s] True show ?thesis
    by (simp add: blobCmdHashes_def)
qed


section \<open>The claims about batches and transfers\<close>

subsection \<open>C2: each hash at most once\<close>

lemma blobPutCmd_storeCalls:
  "storeCalls (blobKey H) (trace (snd (blobPutCmd e all args w)))
     \<le> storeCalls (blobKey H) (trace w) + 1"
proof -
  let ?c = "\<lambda>s. storeCalls (blobKey H) (trace s)"
  obtain hashes w1 where h: "blobCmdHashes (readManifest e) all args w = (hashes, w1)"
    by (cases "blobCmdHashes (readManifest e) all args w")
  with blobCmdHashes_storeCalls [of "blobKey H" e all args w] have "?c w1 = ?c w" by simp
  moreover have "?c (snd (blobCmdRunFunc (openIndex e) (readManifest e) hashes (blobPut_f e) w1))
                   \<le> ?c w1 + 1"
    by (rule blobCmdRunFunc_count_bound [where H = H])
      (simp_all only: openIndex_storeCalls readManifest_storeCalls blobPut_f_storeCalls)
  ultimately show ?thesis using h by (simp add: blobPutCmd_def)
qed

lemma blobGetCmd_storeCalls:
  "storeCalls (blobKey H) (trace (snd (blobGetCmd e all args w)))
     \<le> storeCalls (blobKey H) (trace w) + 1"
proof -
  let ?c = "\<lambda>s. storeCalls (blobKey H) (trace s)"
  obtain hashes w1 where h: "blobCmdHashes (readManifest e) all args w = (hashes, w1)"
    by (cases "blobCmdHashes (readManifest e) all args w")
  with blobCmdHashes_storeCalls [of "blobKey H" e all args w] have "?c w1 = ?c w" by simp
  moreover have "?c (snd (blobCmdRunFunc (openIndex e) (readManifest e) hashes (blobGet_f e) w1))
                   \<le> ?c w1 + 1"
    by (rule blobCmdRunFunc_count_bound [where H = H])
      (simp_all only: openIndex_storeCalls readManifest_storeCalls blobGet_f_storeCalls)
  ultimately show ?thesis using h by (simp add: blobGetCmd_def)
qed

text \<open>
  C2.  In a run of the batch runner, whatever the batch (given as arguments or
  appended from the manifest) and whatever the function \<open>f\<close>, no hash occurs twice
  among the calls of \<open>f\<close>; the run that logs the calls has the result and the final
  state of the run itself.  For the two commands, a run adds at most one call of the
  store with the key of a given hash.
\<close>

theorem each_hash_at_most_once:
  "distinct (invoked mdi nm hashes f s)
   \<and> fst (blobCmdRunFunc (lifted mdi) (\<lambda>p. lifted (nm p)) hashes (counting f) ([], s))
       = fst (blobCmdRunFunc mdi nm hashes f s)
   \<and> snd (snd (blobCmdRunFunc (lifted mdi) (\<lambda>p. lifted (nm p)) hashes (counting f) ([], s)))
       = snd (blobCmdRunFunc mdi nm hashes f s)
   \<and> storeCalls (blobKey H) (trace (snd (blobPutCmd e all args w)))
       \<le> storeCalls (blobKey H) (trace w) + 1
   \<and> storeCalls (blobKey H) (trace (snd (blobGetCmd e all args w)))
       \<le> storeCalls (blobKey H) (trace w) + 1"
proof (intro conjI)
  show "distinct (invoked mdi nm hashes f s)"
    by (rule distinct_invoked)
  show "fst (blobCmdRunFunc (lifted mdi) (\<lambda>p. lifted (nm p)) hashes (counting f) ([], s))
          = fst (blobCmdRunFunc mdi nm hashes f s)"
    using blobCmdRunFunc_counting_same_run [of mdi nm hashes f "[]" s] by (rule conjunct1)
  show "snd (snd (blobCmdRunFunc (lifted mdi) (\<lambda>p. lifted (nm p)) hashes (counting f) ([], s)))
          = snd (blobCmdRunFunc mdi nm hashes f s)"
    using blobCmdRunFunc_counting_same_run [of mdi nm hashes f "[]" s] by (rule conjunct2)
  show "storeCalls (blobKey H) (trace (snd (blobPutCmd e all args w)))
          \<le> storeCalls (blobKey H) (trace w) + 1"
    by (rule blobPutCmd_storeCalls)
  show "storeCalls (blobKey H) (trace (snd (blobGetCmd e all args w)))
          \<le> storeCalls (blobKey H) (trace w) + 1"
    by (rule blobGetCmd_storeCalls)
qed

theorem each_hash_at_most_once_witness:
  "invoked (openIndex memEnv) (readManifest memEnv) [hashA, hashB, hashA, hashB]
     (blobPut_f memEnv) (start worldABC) = [hashA, hashB]
   \<and> distinct (invoked (openIndex memEnv) (readManifest memEnv) [hashA, hashB, hashA, hashB]
       (blobPut_f memEnv) (start worldABC))
   \<and> storeCalls (blobKey hashA)
        (trace (snd (blobPutCmd memEnv True [hashA, hashA] (start worldABC)))) = 1
   \<and> storeCalls (blobKey hashA)
        (trace (snd (blobGetCmd memEnv True [hashA, hashA] (start worldABC)))) = 1"
proof -
  have "invoked (openIndex memEnv) (readManifest memEnv) [hashA, hashB, hashA, hashB]
     (blobPut_f memEnv) (start worldABC) = [hashA, hashB]"
    by code_simp
  moreover have "storeCalls (blobKey hashA)
        (trace (snd (blobPutCmd memEnv True [hashA, hashA] (start worldABC)))) = 1"
    by code_simp
  moreover have "storeCalls (blobKey hashA)
        (trace (snd (blobGetCmd memEnv True [hashA, hashA] (start worldABC)))) = 1"
    by code_simp
  moreover note each_hash_at_most_once
    [where mdi = "openIndex memEnv" and nm = "readManifest memEnv"
       and hashes = "[hashA, hashB, hashA, hashB]" and f = "blobPut_f memEnv"
       and s = "start worldABC" and H = hashA and e = memEnv and all = True
       and args = "[hashA, hashA]" and w = "start worldABC"]
  ultimately show ?thesis by (intro conjI) (simp_all only: simp_thms)
qed

subsection \<open>C4: one fetch, then copies\<close>











subsection \<open>C5: a hash the manifest does not know\<close>














end
